theory Spec2Isabelle
  imports Main "HOL-Library.Char_ord" "HOL-Library.List_Lexorder"
begin

section \<open>JavaScript values and objects\<close>

text \<open>
  A variant selection holds strings, booleans or \<open>undefined\<close> (the types
  \<open>DefaultVariants\<close> and \<open>CompoundVariant\<close> of the library allow nothing else).
  \<open>js_String\<close> is JavaScript's \<open>String(v)\<close> on these values.
\<close>

datatype jsval = JUndefined | JBool bool | JStr string

fun js_String :: "jsval \<Rightarrow> string" where
  "js_String JUndefined = ''undefined''"
| "js_String (JBool b) = (if b then ''true'' else ''false'')"
| "js_String (JStr s) = s"

text \<open>
  A plain object is the list of its own properties in enumeration order (the order of
  \<open>for ... in\<close> and \<open>Object.keys\<close>, which is insertion order for names that are
  not array indices); an object has every key once. A property whose type is optional
  holds an \<open>option\<close>: \<open>None\<close> is a falsy \<open>undefined\<close> or \<open>null\<close>.
\<close>

type_synonym 'a obj = "(string \<times> 'a) list"

definition wf_obj :: "'a obj \<Rightarrow> bool" where
  "wf_obj ob = distinct (map fst ob)"

text \<open>\<open>ob[k] = v\<close>: an existing key keeps its place, a new key goes last.\<close>

fun obj_set :: "string \<Rightarrow> 'a \<Rightarrow> 'a obj \<Rightarrow> 'a obj" where
  "obj_set k v [] = [(k, v)]"
| "obj_set k v ((k', v') # r) = (if k = k' then (k, v) # r else (k', v') # obj_set k v r)"

text \<open>\<open>Object.assign(target, src)\<close>; the spread \<open>{...a, ...b}\<close> is
  \<open>obj_assign (obj_assign [] a) b\<close>.\<close>

definition obj_assign :: "'a obj \<Rightarrow> 'a obj \<Rightarrow> 'a obj" where
  "obj_assign target src = fold (\<lambda>(k, v) acc. obj_set k v acc) src target"


text \<open>\<open>props[k]\<close> on a selection: a missing key reads as \<open>undefined\<close>.\<close>

definition js_get :: "jsval obj \<Rightarrow> string \<Rightarrow> jsval" where
  "js_get ob k = (case map_of ob k of None \<Rightarrow> JUndefined | Some v \<Rightarrow> v)"

text \<open>\<open>ob[k]\<close> on an object of optional entries: missing and \<open>undefined\<close> coincide.\<close>

definition opt_get :: "'a option obj \<Rightarrow> string \<Rightarrow> 'a option" where
  "opt_get ob k = (case map_of ob k of None \<Rightarrow> None | Some v \<Rightarrow> v)"

section \<open>The configuration\<close>

type_synonym 'v slotmap = "'v obj option obj"
type_synonym 'v valuetable = "'v slotmap option obj"
type_synonym 'v variants = "'v valuetable option obj"

text \<open>A compound rule \<open>{ css, ...conditions }\<close>, already destructured.\<close>

record 'v compound =
  conditions :: "jsval obj"
  css :: "'v slotmap option"

record 'v config =
  slots :: "string list"
  base :: "'v slotmap option"
  variants :: "'v variants option"
  defaultVariants :: "jsval obj option"
  compoundVariants :: "'v compound list option"

section \<open>Cache key and value normalization\<close>

text \<open>
  \<open>createCacheKey\<close>: \<open>keys.sort()\<close> compares code units; on the byte strings of the
  model this is the lexicographic order of \<open>char list\<close>.
\<close>

definition cacheKey_step :: "jsval obj \<Rightarrow> string \<Rightarrow> string \<Rightarrow> string" where
  "cacheKey_step props k key =
     (let v = js_get props k
      in if v \<noteq> JUndefined then key @ k @ '':'' @ js_String v @ '';'' else key)"

definition createCacheKey :: "jsval obj option \<Rightarrow> string" where
  "createCacheKey props =
     (case props of
        None \<Rightarrow> ''{}''
      | Some p \<Rightarrow>
          (let keys = map fst p
           in if length keys = 0 then ''{}''
              else (let key = fold (cacheKey_step p) (sort keys) ''''
                    in if key = '''' then ''{}'' else key)))"

fun normalizeVariantValue :: "jsval \<Rightarrow> string" where
  "normalizeVariantValue (JBool v) = (if v then ''true'' else ''false'')"
| "normalizeVariantValue v = js_String v"

section \<open>Variant matcher, compound matcher, slot compositor\<close>

text \<open>
  One iteration of the loop of \<open>applyVariant\<close> over the variant table:
  \<open>applyVariant_lookup\<close> is the \<open>styleForValue\<close> the iteration finds, \<open>None\<close>
  where the source says \<open>continue\<close> or finds a falsy entry.
\<close>

definition applyVariant_lookup :: "string \<Rightarrow> jsval obj \<Rightarrow> (string \<times> 'v valuetable option) \<Rightarrow> 'v obj option" where
  "applyVariant_lookup slot props entry =
     (case entry of (variantKey, variantConfig) \<Rightarrow>
        if map_of props variantKey = None then None
        else (let v = js_get props variantKey
              in if v = JUndefined then None
                 else (case variantConfig of
                         None \<Rightarrow> None
                       | Some vc \<Rightarrow>
                           (case opt_get vc (normalizeVariantValue v) of
                              None \<Rightarrow> None
                            | Some sl \<Rightarrow> opt_get sl slot))))"

definition applyVariant_step :: "string \<Rightarrow> jsval obj \<Rightarrow> (string \<times> 'v valuetable option) \<Rightarrow> 'v obj \<Rightarrow> 'v obj" where
  "applyVariant_step slot props entry style =
     (case applyVariant_lookup slot props entry of
        None \<Rightarrow> style
      | Some styleForValue \<Rightarrow> obj_assign (obj_assign [] style) styleForValue)"

definition applyVariant :: "string \<Rightarrow> 'v variants \<Rightarrow> jsval obj \<Rightarrow> 'v obj" where
  "applyVariant slot vs props = fold (applyVariant_step slot props) vs []"

text \<open>The inner loop of \<open>applyCompound\<close>: it stops at the first condition that differs.\<close>

fun isMatch :: "jsval obj \<Rightarrow> jsval obj \<Rightarrow> bool" where
  "isMatch [] props = True"
| "isMatch ((condKey, condValue) # rest) props =
     (if condKey = ''css'' then isMatch rest props
      else if normalizeVariantValue condValue \<noteq> normalizeVariantValue (js_get props condKey) then False
      else isMatch rest props)"

text \<open>The patch \<open>css[slot]\<close> a rule contributes: \<open>None\<close> when the rule does not
  match or \<open>css?.[slot]\<close> is falsy.\<close>

definition applyCompound_lookup :: "string \<Rightarrow> jsval obj \<Rightarrow> 'v compound \<Rightarrow> 'v obj option" where
  "applyCompound_lookup slot props cv =
     (if isMatch (conditions cv) props
      then (case css cv of None \<Rightarrow> None | Some c \<Rightarrow> opt_get c slot)
      else None)"

definition applyCompound_step :: "string \<Rightarrow> jsval obj \<Rightarrow> 'v compound \<Rightarrow> 'v obj \<Rightarrow> 'v obj" where
  "applyCompound_step slot props cv style =
     (case applyCompound_lookup slot props cv of
        None \<Rightarrow> style
      | Some patch \<Rightarrow> obj_assign (obj_assign [] style) patch)"

definition applyCompound :: "string \<Rightarrow> 'v compound list \<Rightarrow> jsval obj \<Rightarrow> 'v obj" where
  "applyCompound slot cvs props = fold (applyCompound_step slot props) cvs []"

text \<open>\<open>base?.[slot] ?? {}\<close>\<close>

definition baseStyle :: "'v slotmap option \<Rightarrow> string \<Rightarrow> 'v obj" where
  "baseStyle b slot =
     (case (case b of None \<Rightarrow> None | Some bs \<Rightarrow> opt_get bs slot) of
        None \<Rightarrow> []
      | Some s \<Rightarrow> s)"

definition computeSlotStyles :: "string \<Rightarrow> 'v slotmap option \<Rightarrow> 'v variants \<Rightarrow> 'v compound list \<Rightarrow> jsval obj \<Rightarrow> 'v obj" where
  "computeSlotStyles slot b vs cvs props =
     (let variantStyle = applyVariant slot vs props;
          compoundStyle = applyCompound slot cvs props
      in obj_assign (obj_assign (obj_assign [] (baseStyle b slot)) variantStyle) compoundStyle)"

section \<open>Util expansion\<close>

text \<open>The util table maps a name to a function from the value to a style object;
  \<open>key in utils\<close> is read on the table's own keys (the names inherited from
  \<open>Object.prototype\<close> are no style properties).\<close>

type_synonym 'v utils = "('v \<Rightarrow> 'v obj) obj"

definition expandUtils_step :: "'v utils \<Rightarrow> (string \<times> 'v) \<Rightarrow> 'v obj \<Rightarrow> 'v obj" where
  "expandUtils_step utils entry result =
     (case entry of (key, v) \<Rightarrow>
        (case map_of utils key of
           Some utilFn \<Rightarrow> obj_assign result (utilFn v)
         | None \<Rightarrow> obj_set key v result))"

definition expandUtils :: "'v obj option \<Rightarrow> 'v utils \<Rightarrow> 'v obj" where
  "expandUtils style utils =
     (case style of None \<Rightarrow> [] | Some s \<Rightarrow> fold (expandUtils_step utils) s [])"

definition expandSlots :: "'v slotmap \<Rightarrow> 'v utils \<Rightarrow> 'v slotmap" where
  "expandSlots sl utils = map (\<lambda>(slot, sty). (slot, Some (expandUtils sty utils))) sl"

definition expandBaseUtils :: "'v slotmap option \<Rightarrow> 'v utils \<Rightarrow> 'v slotmap" where
  "expandBaseUtils b utils = (case b of None \<Rightarrow> [] | Some bs \<Rightarrow> expandSlots bs utils)"

definition expandValueTable :: "'v valuetable \<Rightarrow> 'v utils \<Rightarrow> 'v valuetable" where
  "expandValueTable vt utils =
     List.map_filter (\<lambda>(valueKey, sl).
        (case sl of None \<Rightarrow> None | Some s \<Rightarrow> Some (valueKey, Some (expandSlots s utils)))) vt"

definition expandVariantsUtils :: "'v variants option \<Rightarrow> 'v utils \<Rightarrow> 'v variants" where
  "expandVariantsUtils vs utils =
     (case vs of
        None \<Rightarrow> []
      | Some vl \<Rightarrow>
          List.map_filter (\<lambda>(variantKey, variantValues).
            (case variantValues of
               None \<Rightarrow> None
             | Some vt \<Rightarrow> Some (variantKey, Some (expandValueTable vt utils)))) vl)"

definition expandCompoundUtils :: "'v compound list option \<Rightarrow> 'v utils \<Rightarrow> 'v compound list" where
  "expandCompoundUtils cvs utils =
     (case cvs of
        None \<Rightarrow> []
      | Some cl \<Rightarrow>
          map (\<lambda>cv. \<lparr>conditions = conditions cv,
                     css = Some (case css cv of None \<Rightarrow> [] | Some c \<Rightarrow> expandSlots c utils)\<rparr>) cl)"

section \<open>The two resolvers\<close>

text \<open>
  What the closure \<open>computeStyles\<close> captures at declaration, and its cache partition.
  A cached result is an object: its identity is the number it got when it was created.
\<close>

record 'v closure =
  c_slots :: "string list"
  c_base :: "'v slotmap"
  c_variants :: "'v variants"
  c_defaultVariants :: "jsval obj"
  c_compoundVariants :: "'v compound list"

type_synonym 'v resolved = "nat \<times> 'v obj obj"

record 'v partition =
  configCache :: "(string \<rightharpoonup> 'v resolved) option"
  next_id :: nat

definition fresh_partition :: "'v partition" where
  "fresh_partition = \<lparr>configCache = None, next_id = 0\<rparr>"

definition resolveProps :: "jsval obj \<Rightarrow> jsval obj option \<Rightarrow> jsval obj" where
  "resolveProps dv props =
     (let resolvedProps = obj_assign [] dv
      in case props of
           None \<Rightarrow> resolvedProps
         | Some p \<Rightarrow> fold (\<lambda>(key, v) acc. if v \<noteq> JUndefined then obj_set key v acc else acc) p resolvedProps)"

definition computeAllSlots :: "'v closure \<Rightarrow> jsval obj \<Rightarrow> 'v obj obj" where
  "computeAllSlots env resolvedProps =
     fold (\<lambda>slot result.
             obj_set slot (computeSlotStyles slot (Some (c_base env)) (c_variants env)
                             (c_compoundVariants env) resolvedProps) result)
          (c_slots env) []"

definition cache_lookup :: "'v partition \<Rightarrow> string \<Rightarrow> 'v resolved option" where
  "cache_lookup st cacheKey = (case configCache st of None \<Rightarrow> None | Some m \<Rightarrow> m cacheKey)"

definition cache_store :: "'v partition \<Rightarrow> string \<Rightarrow> 'v obj obj \<Rightarrow> 'v resolved \<times> 'v partition" where
  "cache_store st cacheKey result =
     (let m = (case configCache st of None \<Rightarrow> Map.empty | Some m \<Rightarrow> m);
          ob = (next_id st, result)
      in (ob, \<lparr>configCache = Some (m(cacheKey \<mapsto> ob)), next_id = Suc (next_id st)\<rparr>))"



text \<open>\<open>createNVA({utils}).styled(config)\<close>: utils are expanded here, and the closure
  keeps the expanded tables only.\<close>

definition nva_styled :: "'v utils \<Rightarrow> 'v config \<Rightarrow> 'v closure" where
  "nva_styled inputUtils configWithUtils =
     \<lparr>c_slots = slots configWithUtils,
      c_base = expandBaseUtils (base configWithUtils) inputUtils,
      c_variants = expandVariantsUtils (variants configWithUtils) inputUtils,
      c_defaultVariants = (case defaultVariants configWithUtils of None \<Rightarrow> [] | Some d \<Rightarrow> d),
      c_compoundVariants = expandCompoundUtils (compoundVariants configWithUtils) inputUtils\<rparr>"

definition nva_computeStyles :: "'v closure \<Rightarrow> 'v partition \<Rightarrow> jsval obj option \<Rightarrow> 'v resolved \<times> 'v partition" where
  "nva_computeStyles env st props =
     (let cacheKey = createCacheKey props
      in case cache_lookup st cacheKey of
           Some hit \<Rightarrow> (hit, st)
         | None \<Rightarrow>
             (let resolvedProps = resolveProps (c_defaultVariants env) props;
                  result = computeAllSlots env resolvedProps
              in cache_store st cacheKey result))"

text \<open>A history of calls to one resolver: the partition after the calls.\<close>

fun nva_run :: "'v closure \<Rightarrow> 'v partition \<Rightarrow> jsval obj option list \<Rightarrow> 'v partition" where
  "nva_run env st [] = st"
| "nva_run env st (p # ps) = nva_run env (snd (nva_computeStyles env st p)) ps"



section \<open>Notions used to state the properties\<close>

text \<open>
  What a selection means to the matchers: its defined entries, each value as the string
  \<open>String(v)\<close> (the matchers read a value through \<open>normalizeVariantValue\<close> only,
  and skip or stringify \<open>undefined\<close>).
\<close>

definition selection_of :: "jsval obj \<Rightarrow> (string \<rightharpoonup> string)" where
  "selection_of p =
     (\<lambda>k. case map_of p k of
            None \<Rightarrow> None
          | Some v \<Rightarrow> if v = JUndefined then None else Some (js_String v))"

definition props_selection :: "jsval obj option \<Rightarrow> (string \<rightharpoonup> string)" where
  "props_selection props = (case props of None \<Rightarrow> Map.empty | Some p \<Rightarrow> selection_of p)"

text \<open>A props object as a JavaScript object (every key once), and one whose keys
  hold no \<open>:\<close> or \<open>;\<close> and whose values hold no \<open>;\<close>.\<close>

definition wf_props :: "jsval obj option \<Rightarrow> bool" where
  "wf_props props = (case props of None \<Rightarrow> True | Some p \<Rightarrow> wf_obj p)"

definition separator_free :: "jsval obj \<Rightarrow> bool" where
  "separator_free p =
     list_all (\<lambda>(k, v). CHR '':'' \<notin> set k \<and> CHR '';'' \<notin> set k \<and> CHR '';'' \<notin> set (js_String v)) p"

definition plain_props :: "jsval obj option \<Rightarrow> bool" where
  "plain_props props = (case props of None \<Rightarrow> True | Some p \<Rightarrow> wf_obj p \<and> separator_free p)"

definition sel_separator_free :: "(string \<rightharpoonup> string) \<Rightarrow> bool" where
  "sel_separator_free sel =
     (\<forall>k v. sel k = Some v \<longrightarrow> CHR '':'' \<notin> set k \<and> CHR '';'' \<notin> set k \<and> CHR '';'' \<notin> set v)"

text \<open>The cache key as a function of the meaning of the props alone.\<close>

definition render :: "(string \<rightharpoonup> string) \<Rightarrow> string list \<Rightarrow> string" where
  "render sel ks = concat (map (\<lambda>k. k @ '':'' @ the (sel k) @ '';'') ks)"

definition canonical_key :: "(string \<rightharpoonup> string) \<Rightarrow> string" where
  "canonical_key sel =
     (let r = render sel (sorted_list_of_set (dom sel)) in if r = [] then ''{}'' else r)"

text \<open>The invariant of a cache partition: every entry was computed for some props
  with that key, among the props that satisfy \<open>Q\<close>.\<close>

definition cache_inv :: "(jsval obj option \<Rightarrow> bool) \<Rightarrow> 'v closure \<Rightarrow> 'v partition \<Rightarrow> bool" where
  "cache_inv Q env st =
     (\<forall>key r. cache_lookup st key = Some r \<longrightarrow>
        (\<exists>x. Q x \<and> createCacheKey x = key \<and>
             snd r = computeAllSlots env (resolveProps (c_defaultVariants env) x)))"


definition util_free :: "'v utils \<Rightarrow> 'v obj \<Rightarrow> bool" where
  "util_free utils sty = (\<forall>k \<in> fst ` set sty. map_of utils k = None)"

text \<open>The style objects a closure holds.\<close>

definition slotmap_styles :: "'v slotmap \<Rightarrow> 'v obj set" where
  "slotmap_styles sl = {s. \<exists>slot. (slot, Some s) \<in> set sl}"









section \<open>Example configurations\<close>


definition cfg_size :: "int config" where
  "cfg_size =
     \<lparr>slots = [''root''],
      base = Some [(''root'', Some [(''padding'', 8)])],
      variants = Some [(''size'', Some [(''sm'', Some [(''root'', Some [(''padding'', 4)])]),
                                       (''lg'', Some [(''root'', Some [(''padding'', 16)])])])],
      defaultVariants = Some [(''size'', JStr ''sm'')],
      compoundVariants = None\<rparr>"

definition cfg_disabled :: "int config" where
  "cfg_disabled =
     \<lparr>slots = [''root''],
      base = None,
      variants = Some [(''disabled'', Some [(''true'', Some [(''root'', Some [(''opacity'', 5)])]),
                                           (''false'', Some [(''root'', Some [(''opacity'', 10)])])])],
      defaultVariants = None,
      compoundVariants = None\<rparr>"






definition cfg_collide :: "int config" where
  "cfg_collide =
     \<lparr>slots = [''root''],
      base = None,
      variants = Some [(''a'', Some [(''x;b:y'', Some [(''root'', Some [(''padding'', 1)])]),
                                    (''x'', Some [(''root'', Some [(''padding'', 2)])])]),
                       (''b'', Some [(''y'', Some [(''root'', Some [(''margin'', 3)])])])],
      defaultVariants = Some [(''b'', JStr ''y'')],
      compoundVariants = None\<rparr>"

section \<open>Objects: assignment and spread\<close>

lemma map_of_obj_set: "map_of (obj_set k v ob) = (map_of ob)(k \<mapsto> v)"
  by (induction ob) (auto simp: fun_eq_iff)

lemma map_fst_obj_set:
  "map fst (obj_set k v ob) = (if k \<in> set (map fst ob) then map fst ob else map fst ob @ [k])"
  by (induction ob) (auto simp: rev_image_eqI)


lemma wf_obj_set: "wf_obj ob \<Longrightarrow> wf_obj (obj_set k v ob)"
  unfolding wf_obj_def
proof (induction ob)
  case Nil
  then show ?case by simp
next
  case (Cons a ob)
  show ?case by (simp only: map_fst_obj_set) (use Cons.prems in auto)
qed

lemma obj_assign_Nil [simp]: "obj_assign t [] = t"
  by (simp add: obj_assign_def)

lemma obj_assign_Cons: "obj_assign t ((k, v) # s) = obj_assign (obj_set k v t) s"
  by (simp add: obj_assign_def)

lemma obj_assign_snoc: "obj_assign t (s @ [(k, v)]) = obj_set k v (obj_assign t s)"
  by (simp add: obj_assign_def)

lemma wf_obj_assign: "wf_obj t \<Longrightarrow> wf_obj (obj_assign t s)"
  by (induction s arbitrary: t) (auto simp: obj_assign_Cons wf_obj_set)

lemma wf_obj_Nil [simp]: "wf_obj []"
  by (simp add: wf_obj_def)












lemma wf_computeSlotStyles: "wf_obj (computeSlotStyles slot b vs cvs props)"
  by (simp add: computeSlotStyles_def wf_obj_assign)







section \<open>The matchers\<close>

lemma map_of_obj_set_same: "map_of (obj_set k v ob) k = Some v"
  by (simp add: map_of_obj_set)

lemma js_get_obj_set: "js_get (obj_set k v ob) k' = (if k' = k then v else js_get ob k')"
  by (simp add: js_get_def map_of_obj_set)



lemma isMatch_iff:
  "isMatch conds props \<longleftrightarrow>
     (\<forall>(k, c) \<in> set conds. k \<noteq> ''css'' \<longrightarrow> normalizeVariantValue c = normalizeVariantValue (js_get props k))"
  by (induction conds props rule: isMatch.induct) auto






section \<open>The cache key is a function of the meaning of the props\<close>

lemma selection_of_defined: "selection_of p k = None \<longleftrightarrow> js_get p k = JUndefined"
  by (simp add: selection_of_def js_get_def split: option.splits)

lemma selection_of_value: "js_get p k \<noteq> JUndefined \<Longrightarrow> the (selection_of p k) = js_String (js_get p k)"
  by (simp add: selection_of_def js_get_def split: option.splits)

lemma render_Nil [simp]: "render sel [] = []"
  by (simp add: render_def)

lemma render_Cons: "render sel (k # ks) = k @ '':'' @ the (sel k) @ '';'' @ render sel ks"
  by (simp add: render_def)

lemma fold_cacheKey_step:
  "fold (cacheKey_step p) ks acc =
     acc @ render (selection_of p) (filter (\<lambda>k. js_get p k \<noteq> JUndefined) ks)"
proof (induction ks arbitrary: acc)
  case Nil
  then show ?case by simp
next
  case (Cons k ks)
  show ?case
  proof (cases "js_get p k = JUndefined")
    case True
    then have "cacheKey_step p k acc = acc" by (simp add: cacheKey_step_def)
    with True Cons show ?thesis by simp
  next
    case False
    then have "cacheKey_step p k acc = acc @ k @ '':'' @ the (selection_of p k) @ '';''"
      by (simp add: cacheKey_step_def selection_of_value)
    with False Cons show ?thesis by (simp add: render_Cons)
  qed
qed

lemma dom_selection_of: "dom (selection_of p) = set (filter (\<lambda>k. js_get p k \<noteq> JUndefined) (map fst p))"
proof -
  have "k \<in> fst ` set p" if "js_get p k \<noteq> JUndefined" for k
    using that by (auto simp: js_get_def split: option.splits dest!: map_of_SomeD intro: rev_image_eqI)
  moreover have "dom (selection_of p) = {k. js_get p k \<noteq> JUndefined}"
    using selection_of_defined [of p] by (auto simp: dom_def)
  ultimately show ?thesis by auto
qed

lemma finite_dom_selection_of [simp]: "finite (dom (selection_of p))"
  by (simp only: dom_selection_of) simp

lemma sorted_defined_keys:
  assumes "wf_obj p"
  shows "filter (\<lambda>k. js_get p k \<noteq> JUndefined) (sort (map fst p)) = sorted_list_of_set (dom (selection_of p))"
proof -
  let ?P = "\<lambda>k. js_get p k \<noteq> JUndefined"
  have d: "distinct (filter ?P (map fst p))"
    using assms by (simp add: wf_obj_def)
  have "sorted_list_of_set (dom (selection_of p)) = sort (remdups (filter ?P (map fst p)))"
    by (simp only: dom_selection_of sorted_list_of_set_sort_remdups)
  also have "\<dots> = sort (filter ?P (map fst p))"
    using d by (simp only: distinct_remdups_id)
  also have "\<dots> = filter ?P (sort (map fst p))"
    by (simp only: filter_sort)
  finally show ?thesis by simp
qed

lemma createCacheKey_canonical:
  assumes "wf_props props"
  shows "createCacheKey props = canonical_key (props_selection props)"
proof (cases props)
  case None
  then show ?thesis by (simp add: createCacheKey_def canonical_key_def props_selection_def)
next
  case (Some p)
  with assms have wf: "wf_obj p" by (simp add: wf_props_def)
  show ?thesis
  proof (cases "p = []")
    case True
    with Some show ?thesis
      by (simp add: createCacheKey_def canonical_key_def props_selection_def selection_of_def)
  next
    case False
    have "fold (cacheKey_step p) (sort (map fst p)) [] =
        render (selection_of p) (sorted_list_of_set (dom (selection_of p)))"
      by (simp only: fold_cacheKey_step sorted_defined_keys [OF wf] append_Nil)
    with False Some show ?thesis
      by (simp add: createCacheKey_def canonical_key_def props_selection_def Let_def)
  qed
qed

lemma split_at_separator:
  "c \<notin> set xs \<Longrightarrow> c \<notin> set ys \<Longrightarrow> xs @ c # r = ys @ c # r' \<Longrightarrow> xs = ys \<and> r = r'"
proof (induction xs arbitrary: ys)
  case Nil
  then show ?case by (cases ys) auto
next
  case (Cons x xs)
  then show ?case by (cases ys) auto
qed

lemma render_inj:
  assumes "sel_separator_free sel" "sel_separator_free sel'"
    "set ks \<subseteq> dom sel" "set ks' \<subseteq> dom sel'"
    "render sel ks = render sel' ks'"
  shows "ks = ks' \<and> (\<forall>k \<in> set ks. sel k = sel' k)"
  using assms(3-5)
proof (induction ks arbitrary: ks')
  case Nil
  then show ?case by (cases ks') (auto simp: render_Cons)
next
  case (Cons k ks)
  show ?case
  proof (cases ks')
    case Nil
    with Cons.prems show ?thesis by (auto simp: render_Cons)
  next
    case (Cons k' ks'')
    from Cons.prems(1) obtain v where v: "sel k = Some v" by auto
    from Cons.prems(2) Cons obtain v' where v': "sel' k' = Some v'" by auto
    from v assms(1) have kf: "CHR '':'' \<notin> set k" "CHR '';'' \<notin> set v"
      by (auto simp: sel_separator_free_def)
    from v' assms(2) have kf': "CHR '':'' \<notin> set k'" "CHR '';'' \<notin> set v'"
      by (auto simp: sel_separator_free_def)
    from Cons.prems(3) Cons v v'
    have eq: "k @ CHR '':'' # (v @ CHR '';'' # render sel ks) = k' @ CHR '':'' # (v' @ CHR '';'' # render sel' ks'')"
      by (simp add: render_Cons)
    from split_at_separator [OF kf(1) kf'(1) eq]
    have k: "k = k'" and eq2: "v @ CHR '';'' # render sel ks = v' @ CHR '';'' # render sel' ks''"
      by simp_all
    from split_at_separator [OF kf(2) kf'(2) eq2]
    have vv: "v = v'" and eq3: "render sel ks = render sel' ks''" by simp_all
    from Cons.prems(1) have s1: "set ks \<subseteq> dom sel" by simp
    from Cons.prems(2) Cons have s2: "set ks'' \<subseteq> dom sel'" by simp
    from Cons.IH [OF s1 s2 eq3] have "ks = ks'' \<and> (\<forall>k \<in> set ks. sel k = sel' k)" .
    with k vv v v' Cons show ?thesis by simp
  qed
qed

lemma render_has_separator: "ks \<noteq> [] \<Longrightarrow> CHR '';'' \<in> set (render sel ks)"
  by (cases ks) (auto simp: render_Cons)

lemma canonical_key_inj:
  assumes "sel_separator_free sel" "sel_separator_free sel'"
    "finite (dom sel)" "finite (dom sel')"
    "canonical_key sel = canonical_key sel'"
  shows "sel = sel'"
proof -
  let ?ks = "sorted_list_of_set (dom sel)" and ?ks' = "sorted_list_of_set (dom sel')"
  have nb: "render s ks \<noteq> ''{}''" for s ks
  proof (cases "ks = []")
    case True
    then show ?thesis by simp
  next
    case False
    from render_has_separator [OF this, of s] show ?thesis by auto
  qed
  have e: "render s ks = [] \<longleftrightarrow> ks = []" for s ks
    using render_has_separator [of ks s] by (cases "ks = []") auto
  have "render sel ?ks = render sel' ?ks'"
  proof (cases "?ks = []")
    case True
    with assms(5) nb [of sel' ?ks'] show ?thesis
      by (auto simp: canonical_key_def Let_def split: if_splits)
  next
    case False
    with assms(5) nb [of sel ?ks] e [of sel ?ks] show ?thesis
      by (auto simp: canonical_key_def Let_def split: if_splits)
  qed
  have "?ks = ?ks' \<and> (\<forall>k \<in> set ?ks. sel k = sel' k)"
    by (rule render_inj [OF assms(1,2) _ _ \<open>render sel ?ks = render sel' ?ks'\<close>])
      (simp_all add: assms(3,4))
  then have ks: "?ks = ?ks'" and vals: "\<forall>k \<in> set ?ks. sel k = sel' k" by blast+
  from ks assms(3,4) have d: "dom sel = dom sel'"
    by (metis set_sorted_list_of_set)
  show ?thesis
  proof
    fix k
    show "sel k = sel' k"
    proof (cases "k \<in> dom sel")
      case True
      with vals assms(3) show ?thesis by simp
    next
      case False
      with d have "k \<notin> dom sel'" by simp
      with False show ?thesis by (simp add: domIff)
    qed
  qed
qed

lemma sel_separator_free_selection_of:
  "separator_free p \<Longrightarrow> sel_separator_free (selection_of p)"
  by (auto simp: separator_free_def sel_separator_free_def selection_of_def list_all_iff
      split: option.splits if_splits dest!: map_of_SomeD)

lemma createCacheKey_inj:
  assumes "plain_props p" "plain_props q" "createCacheKey p = createCacheKey q"
  shows "props_selection p = props_selection q"
proof -
  have wf: "wf_props p" "wf_props q"
    using assms(1,2) by (auto simp: plain_props_def wf_props_def split: option.splits)
  have sf: "sel_separator_free (props_selection x)" if "plain_props x" for x
    using that
    by (cases x) (auto simp: plain_props_def props_selection_def sel_separator_free_selection_of,
        simp add: sel_separator_free_def)
  have fin: "finite (dom (props_selection x))" for x
    by (cases x) (simp_all add: props_selection_def)
  from assms(3) have "canonical_key (props_selection p) = canonical_key (props_selection q)"
    by (simp only: createCacheKey_canonical [OF wf(1)] createCacheKey_canonical [OF wf(2)])
  from canonical_key_inj [OF sf [OF assms(1)] sf [OF assms(2)] fin fin this] show ?thesis .
qed

section \<open>The resolver and its cache\<close>

lemma normalize_is_String: "normalizeVariantValue v = js_String v"
  by (cases v) auto

lemma normalized_get: "normalizeVariantValue (js_get props k) =
    (case selection_of props k of None \<Rightarrow> ''undefined'' | Some s \<Rightarrow> s)"
  by (simp add: normalize_is_String selection_of_def js_get_def split: option.splits)

lemma applyVariant_lookup_selection:
  "applyVariant_lookup slot props (vk, vc) =
     (case selection_of props vk of
        None \<Rightarrow> None
      | Some s \<Rightarrow> (case vc of None \<Rightarrow> None
                  | Some t \<Rightarrow> (case opt_get t s of None \<Rightarrow> None | Some sl \<Rightarrow> opt_get sl slot)))"
  by (simp add: applyVariant_lookup_def selection_of_def js_get_def normalize_is_String Let_def
      split: option.splits)

lemma applyVariant_selection:
  assumes "selection_of rp = selection_of rp'"
  shows "applyVariant slot vs rp = applyVariant slot vs rp'"
proof -
  have l: "applyVariant_lookup slot rp e = applyVariant_lookup slot rp' e" for e
    by (cases e) (simp add: applyVariant_lookup_selection assms)
  have "applyVariant_step slot rp = applyVariant_step slot rp'"
    by (simp add: fun_eq_iff applyVariant_step_def l)
  then show ?thesis unfolding applyVariant_def by (rule arg_cong [where f = "\<lambda>f. fold f vs []"])
qed

lemma isMatch_selection:
  assumes "selection_of rp = selection_of rp'"
  shows "isMatch conds rp = isMatch conds rp'"
  by (simp add: isMatch_iff normalized_get assms)

lemma applyCompound_selection:
  assumes "selection_of rp = selection_of rp'"
  shows "applyCompound slot cvs rp = applyCompound slot cvs rp'"
proof -
  have "applyCompound_step slot rp = applyCompound_step slot rp'"
    by (simp add: fun_eq_iff applyCompound_step_def applyCompound_lookup_def isMatch_selection [OF assms])
  then show ?thesis unfolding applyCompound_def by (rule arg_cong [where f = "\<lambda>f. fold f cvs []"])
qed

lemma computeAllSlots_selection:
  assumes "selection_of rp = selection_of rp'"
  shows "computeAllSlots env rp = computeAllSlots env rp'"
  by (simp add: computeAllSlots_def computeSlotStyles_def
      applyVariant_selection [OF assms] applyCompound_selection [OF assms])

lemma selection_of_obj_set:
  "selection_of (obj_set k v ob) = (selection_of ob)(k := if v = JUndefined then None else Some (js_String v))"
  by (simp add: selection_of_def map_of_obj_set fun_eq_iff)

lemma selection_of_Cons:
  "selection_of ((k, v) # r) = (\<lambda>k'. if k' = k then (if v = JUndefined then None else Some (js_String v)) else selection_of r k')"
  by (simp add: selection_of_def fun_eq_iff)

lemma selection_of_fresh:
  assumes "k \<notin> fst ` set r"
  shows "selection_of r k = None"
proof -
  from assms have "map_of r k = None" by (simp add: map_of_eq_None_iff)
  then show ?thesis by (simp add: selection_of_def)
qed

lemma selection_of_overlay:
  "wf_obj p \<Longrightarrow>
   selection_of (fold (\<lambda>(key, v) acc. if v \<noteq> JUndefined then obj_set key v acc else acc) p acc)
     = selection_of acc ++ selection_of p"
proof (induction p arbitrary: acc)
  case Nil
  then show ?case by (simp add: selection_of_def)
next
  case (Cons a p)
  obtain k v where a: "a = (k, v)" by (cases a)
  from Cons.prems a have wf: "wf_obj p" and fresh: "k \<notin> fst ` set p"
    by (auto simp: wf_obj_def)
  note none = selection_of_fresh [OF fresh]
  show ?case
  proof (cases "v = JUndefined")
    case True
    have "selection_of (a # p) = selection_of p"
      using none True by (auto simp: a selection_of_Cons fun_eq_iff)
    with True Cons.IH [OF wf] show ?thesis by (simp add: a)
  next
    case False
    have "selection_of (obj_set k v acc) ++ selection_of p = selection_of acc ++ selection_of (a # p)"
      using none False by (auto simp: a selection_of_Cons selection_of_obj_set fun_eq_iff map_add_def split: option.splits)
    with False Cons.IH [OF wf, of "obj_set k v acc"] show ?thesis by (simp add: a)
  qed
qed

lemma selection_of_resolveProps:
  assumes "wf_props props"
  shows "selection_of (resolveProps dv props) = selection_of (obj_assign [] dv) ++ props_selection props"
proof (cases props)
  case None
  then show ?thesis by (simp add: resolveProps_def props_selection_def)
next
  case (Some p)
  with assms have "wf_obj p" by (simp add: wf_props_def)
  from selection_of_overlay [OF this] Some show ?thesis
    by (simp add: resolveProps_def props_selection_def)
qed

lemma same_selection_same_value:
  assumes "wf_props p" "wf_props q" "props_selection p = props_selection q"
  shows "computeAllSlots env (resolveProps dv p) = computeAllSlots env (resolveProps dv q)"
  by (rule computeAllSlots_selection) (simp add: selection_of_resolveProps assms)

lemma nva_hit: "cache_lookup st (createCacheKey p) = Some r \<Longrightarrow> nva_computeStyles env st p = (r, st)"
  by (simp add: nva_computeStyles_def)

lemma nva_miss: "cache_lookup st (createCacheKey p) = None \<Longrightarrow>
    nva_computeStyles env st p =
      cache_store st (createCacheKey p) (computeAllSlots env (resolveProps (c_defaultVariants env) p))"
  by (simp add: nva_computeStyles_def)

lemma cache_lookup_store:
  "cache_lookup (snd (cache_store st key res)) key' =
     (if key' = key then Some (next_id st, res) else cache_lookup st key')"
  by (simp add: cache_store_def cache_lookup_def Let_def split: option.splits)

lemma fst_cache_store: "fst (cache_store st key res) = (next_id st, res)"
  by (simp add: cache_store_def Let_def)

lemma cache_lookup_fresh: "cache_lookup fresh_partition key = None"
  by (simp add: cache_lookup_def fresh_partition_def)

lemma lookup_preserved:
  assumes "cache_lookup st key = Some r"
  shows "cache_lookup (snd (nva_computeStyles env st p)) key = Some r"
proof (cases "cache_lookup st (createCacheKey p)")
  case None
  with assms have "key \<noteq> createCacheKey p" by auto
  with None assms show ?thesis by (simp add: nva_miss cache_lookup_store)
next
  case (Some h)
  with assms show ?thesis by (simp add: nva_hit)
qed

lemma lookup_after_call:
  "cache_lookup (snd (nva_computeStyles env st p)) (createCacheKey p) = Some (fst (nva_computeStyles env st p))"
proof (cases "cache_lookup st (createCacheKey p)")
  case None
  then show ?thesis by (simp add: nva_miss cache_lookup_store fst_cache_store)
next
  case (Some h)
  then show ?thesis by (simp add: nva_hit)
qed

lemma lookup_preserved_run:
  "cache_lookup st key = Some r \<Longrightarrow> cache_lookup (nva_run env st ps) key = Some r"
  by (induction ps arbitrary: st) (auto simp: lookup_preserved)

lemma cache_inv_fresh: "cache_inv Q env fresh_partition"
  by (simp add: cache_inv_def cache_lookup_fresh)

lemma cache_inv_step:
  assumes "cache_inv Q env st" "Q p"
  shows "cache_inv Q env (snd (nva_computeStyles env st p))"
proof (cases "cache_lookup st (createCacheKey p)")
  case None
  show ?thesis
    unfolding cache_inv_def
  proof (intro allI impI)
    fix key r
    assume l: "cache_lookup (snd (nva_computeStyles env st p)) key = Some r"
    show "\<exists>x. Q x \<and> createCacheKey x = key \<and>
             snd r = computeAllSlots env (resolveProps (c_defaultVariants env) x)"
    proof (cases "key = createCacheKey p")
      case True
      with l None have "snd r = computeAllSlots env (resolveProps (c_defaultVariants env) p)"
        by (auto simp: nva_miss cache_lookup_store)
      with True assms(2) show ?thesis by blast
    next
      case False
      with l None have "cache_lookup st key = Some r"
        by (simp add: nva_miss cache_lookup_store)
      with assms(1) show ?thesis unfolding cache_inv_def by blast
    qed
  qed
next
  case (Some h)
  with assms(1) show ?thesis by (simp add: nva_hit)
qed

lemma cache_inv_run:
  "cache_inv Q env st \<Longrightarrow> \<forall>p \<in> set ps. Q p \<Longrightarrow> cache_inv Q env (nva_run env st ps)"
  by (induction ps arbitrary: st) (auto simp: cache_inv_step)

lemma cache_inv_result:
  assumes "cache_inv Q env st" "Q p"
  shows "\<exists>x. Q x \<and> createCacheKey x = createCacheKey p \<and>
     snd (fst (nva_computeStyles env st p)) = computeAllSlots env (resolveProps (c_defaultVariants env) x)"
proof -
  have "cache_inv Q env (snd (nva_computeStyles env st p))"
    using assms by (rule cache_inv_step)
  with lookup_after_call [of env st p] show ?thesis
    unfolding cache_inv_def by blast
qed

lemma plain_history_value:
  assumes "\<forall>x \<in> set ps. plain_props x" "plain_props p"
  shows "snd (fst (nva_computeStyles env (nva_run env fresh_partition ps) p)) =
     computeAllSlots env (resolveProps (c_defaultVariants env) p)"
proof -
  have "cache_inv plain_props env (nva_run env fresh_partition ps)"
    using cache_inv_fresh assms(1) by (rule cache_inv_run)
  from cache_inv_result [OF this assms(2)] obtain x where
    x: "plain_props x" "createCacheKey x = createCacheKey p"
    and v: "snd (fst (nva_computeStyles env (nva_run env fresh_partition ps) p)) =
       computeAllSlots env (resolveProps (c_defaultVariants env) x)"
    by blast
  have wf: "wf_props x" "wf_props p"
    using x(1) assms(2) by (auto simp: plain_props_def wf_props_def split: option.splits)
  from createCacheKey_inj [OF x(1) assms(2) x(2)]
  have "props_selection x = props_selection p" .
  from same_selection_same_value [OF wf this] v show ?thesis by simp
qed

section \<open>Util expansion is a copy on util-free styles\<close>

lemma util_free_Nil [simp]: "util_free utils []"
  by (simp add: util_free_def)











section \<open>Styles held by a closure\<close>


lemma slotmap_styles_Nil [simp]: "slotmap_styles [] = {}"
  by (simp add: slotmap_styles_def)















section \<open>The two declaration paths\<close>

lemma util_free_no_utils [simp]: "util_free [] s"
  by (simp add: util_free_def)


lemma expandUtils_None [simp]: "expandUtils None utils = []"
  by (simp add: expandUtils_def)

















section \<open>Selections without defined entries\<close>

lemma all_undefined_get:
  assumes "list_all (\<lambda>(k, v). v = JUndefined) p"
  shows "js_get p k = JUndefined"
proof (cases "map_of p k")
  case None
  then show ?thesis by (simp add: js_get_def)
next
  case (Some v)
  then have "(k, v) \<in> set p" by (rule map_of_SomeD)
  with assms have "v = JUndefined" by (auto simp: list_all_iff)
  with Some show ?thesis by (simp add: js_get_def)
qed

lemma all_undefined_key:
  assumes "list_all (\<lambda>(k, v). v = JUndefined) p"
  shows "createCacheKey (Some p) = ''{}''"
proof -
  have "filter (\<lambda>k. js_get p k \<noteq> JUndefined) ks = []" for ks
    by (simp add: all_undefined_get [OF assms])
  then have "fold (cacheKey_step p) ks [] = []" for ks
    by (simp add: fold_cacheKey_step)
  then show ?thesis by (simp add: createCacheKey_def Let_def)
qed

lemma all_undefined_resolve:
  assumes "list_all (\<lambda>(k, v). v = JUndefined) p"
  shows "resolveProps dv (Some p) = resolveProps dv None"
proof -
  have "fold (\<lambda>(key, v) acc. if v \<noteq> JUndefined then obj_set key v acc else acc) p acc = acc" for acc
    using assms by (induction p arbitrary: acc) auto
  then show ?thesis by (simp add: resolveProps_def)
qed

lemma all_undefined_call:
  assumes "list_all (\<lambda>(k, v). v = JUndefined) p"
  shows "nva_computeStyles env st (Some p) = nva_computeStyles env st None"
proof -
  have "createCacheKey None = ''{}''"
    by (simp add: createCacheKey_def)
  then have k: "createCacheKey (Some p) = createCacheKey None"
    by (simp only: all_undefined_key [OF assms])
  show ?thesis
  proof (cases "cache_lookup st (createCacheKey None)")
    case None
    with k have "cache_lookup st (createCacheKey (Some p)) = None" by simp
    from nva_miss [OF this, of env] nva_miss [OF None, of env] show ?thesis
      by (simp add: k all_undefined_resolve [OF assms])
  next
    case (Some h)
    with k have "cache_lookup st (createCacheKey (Some p)) = Some h" by simp
    from nva_hit [OF this, of env] nva_hit [OF Some, of env] show ?thesis by simp
  qed
qed

lemma canonical_key_empty:
  assumes "finite (dom sel)" "canonical_key sel = ''{}''"
  shows "sel = Map.empty"
proof -
  let ?ks = "sorted_list_of_set (dom sel)"
  have "?ks = []"
  proof (rule ccontr)
    assume n: "?ks \<noteq> []"
    from render_has_separator [OF n, of sel] have s: "CHR '';'' \<in> set (render sel ?ks)" .
    then have "render sel ?ks \<noteq> []" by auto
    with assms(2) have "render sel ?ks = ''{}''" by (simp add: canonical_key_def Let_def)
    with s show False by simp
  qed
  with assms(1) have "dom sel = {}" by (metis set_sorted_list_of_set empty_set)
  then show ?thesis by simp
qed

lemma props_selection_None [simp]: "props_selection None = Map.empty"
  by (simp add: props_selection_def)

lemma wf_props_None [simp]: "wf_props None"
  by (simp add: wf_props_def)

lemma finite_dom_props_selection [simp]: "finite (dom (props_selection x))"
  by (cases x) (simp_all add: props_selection_def)

lemma defaults_only_value:
  assumes "\<forall>q \<in> set ps. wf_props q"
  shows "snd (fst (nva_computeStyles env (nva_run env fresh_partition ps) None)) =
     computeAllSlots env (obj_assign [] (c_defaultVariants env))"
proof -
  have "cache_inv wf_props env (nva_run env fresh_partition ps)"
    using cache_inv_fresh assms by (rule cache_inv_run)
  from cache_inv_result [OF this wf_props_None] obtain x where
    x: "wf_props x" "createCacheKey x = createCacheKey None"
    and v: "snd (fst (nva_computeStyles env (nva_run env fresh_partition ps) None)) =
       computeAllSlots env (resolveProps (c_defaultVariants env) x)"
    by blast
  from x have "canonical_key (props_selection x) = ''{}''"
    by (simp add: createCacheKey_canonical [symmetric] createCacheKey_def)
  then have "props_selection x = props_selection None"
    by (simp add: canonical_key_empty)
  from same_selection_same_value [OF x(1) wf_props_None this] v show ?thesis
    by (simp add: resolveProps_def)
qed

lemma nva_run_append: "nva_run env st (ps @ qs) = nva_run env (nva_run env st ps) qs"
  by (induction ps arbitrary: st) simp_all

lemma same_key_same_instance:
  assumes "createCacheKey p = createCacheKey q"
  shows "fst (nva_computeStyles env (nva_run env st (p # mid)) q) = fst (nva_computeStyles env st p)"
proof -
  let ?st1 = "snd (nva_computeStyles env st p)"
  have "cache_lookup ?st1 (createCacheKey q) = Some (fst (nva_computeStyles env st p))"
    using lookup_after_call [of env st p] assms by simp
  then have "cache_lookup (nva_run env ?st1 mid) (createCacheKey q) = Some (fst (nva_computeStyles env st p))"
    by (rule lookup_preserved_run)
  then show ?thesis by (simp add: nva_hit)
qed

section \<open>Claims about the matchers and the compositor\<close>





text \<open>
  C7. A boolean selection value is normalized to \<open>true\<close> or \<open>false\<close> before
  the variant table is read, so it finds what the same selection with the string
  would find; a table declared under the keys \<open>true\<close> and \<open>false\<close> yields
  the style of \<open>false\<close> for the selection \<open>false\<close>, and nothing only when the
  variant is absent from the selection.
\<close>

theorem boolean_variant_distinct:
  "normalizeVariantValue (JBool b) = (if b then ''true'' else ''false'')
   \<and> applyVariant_lookup slot (obj_set k (JBool b) props) (k, Some vt) =
       (case opt_get vt (if b then ''true'' else ''false'') of None \<Rightarrow> None | Some sl \<Rightarrow> opt_get sl slot)
   \<and> applyVariant_lookup slot (obj_set k (JBool b) props) (k, Some vt) =
       applyVariant_lookup slot (obj_set k (JStr (if b then ''true'' else ''false'')) props) (k, Some vt)
   \<and> applyVariant slot [(k, Some [(''true'', Some [(slot, Some st)]), (''false'', Some [(slot, Some sf)])])]
        [(k, JBool b)] = obj_assign [] (if b then st else sf)
   \<and> applyVariant slot [(k, Some [(''true'', Some [(slot, Some st)]), (''false'', Some [(slot, Some sf)])])]
        [] = []
   \<and> snd (fst (nva_computeStyles (nva_styled [] cfg_disabled) fresh_partition (Some [(''disabled'', JBool False)])))
        = [(''root'', [(''opacity'', 10)])]
   \<and> snd (fst (nva_computeStyles (nva_styled [] cfg_disabled) fresh_partition (Some [(''disabled'', JBool True)])))
        = [(''root'', [(''opacity'', 5)])]
   \<and> snd (fst (nva_computeStyles (nva_styled [] cfg_disabled) fresh_partition (Some [])))
        = [(''root'', [])]"
proof -
  have a: "snd (fst (nva_computeStyles (nva_styled [] cfg_disabled) fresh_partition (Some [(''disabled'', JBool False)])))
        = [(''root'', [(''opacity'', 10)])]"
    unfolding cfg_disabled_def by code_simp
  have b: "snd (fst (nva_computeStyles (nva_styled [] cfg_disabled) fresh_partition (Some [(''disabled'', JBool True)])))
        = [(''root'', [(''opacity'', 5)])]"
    unfolding cfg_disabled_def by code_simp
  have c: "snd (fst (nva_computeStyles (nva_styled [] cfg_disabled) fresh_partition (Some [])))
        = [(''root'', [])]"
    unfolding cfg_disabled_def by code_simp
  have d: "applyVariant slot [(k, Some [(''true'', Some [(slot, Some st)]), (''false'', Some [(slot, Some sf)])])]
        [(k, JBool b)] = obj_assign [] (if b then st else sf)"
    by (simp add: applyVariant_def applyVariant_step_def applyVariant_lookup_def js_get_def opt_get_def)
  have e: "applyVariant slot [(k, Some [(''true'', Some [(slot, Some st)]), (''false'', Some [(slot, Some sf)])])]
        [] = []"
    by (simp add: applyVariant_def applyVariant_step_def applyVariant_lookup_def)
  have f: "applyVariant_lookup slot (obj_set k v props) (k, Some vt) =
       (case opt_get vt (normalizeVariantValue v) of None \<Rightarrow> None | Some sl \<Rightarrow> opt_get sl slot)"
    if "v \<noteq> JUndefined" for v
    using that by (simp add: applyVariant_lookup_def js_get_obj_set map_of_obj_set)
  have g: "applyVariant_lookup slot (obj_set k (JBool b) props) (k, Some vt) =
       (case opt_get vt (if b then ''true'' else ''false'') of None \<Rightarrow> None | Some sl \<Rightarrow> opt_get sl slot)"
    using f [of "JBool b"] by simp
  have h: "applyVariant_lookup slot (obj_set k (JStr (if b then ''true'' else ''false'')) props) (k, Some vt) =
       (case opt_get vt (if b then ''true'' else ''false'') of None \<Rightarrow> None | Some sl \<Rightarrow> opt_get sl slot)"
    using f [of "JStr (if b then ''true'' else ''false'')"] by simp
  have i: "normalizeVariantValue (JBool b) = (if b then ''true'' else ''false'')"
    by simp
  show ?thesis
    by (simp only: a b c d e g h i simp_thms)
qed



section \<open>Claims about the cache, the resolver and the utils\<close>

text \<open>
  C1, as amended. The cache key is computed from the props the caller passed, before the
  defaults are overlaid, and the entry is stored under it. It depends on the meaning of
  the props only: two props objects with the same defined entries (in any key order,
  with or without \<open>undefined\<close> entries, a boolean or its string) have the same key.
  Among props whose keys hold no \<open>:\<close> or \<open>;\<close> and whose values hold no \<open>;\<close>,
  equal keys imply equal defined entries. A selection that supplies a value, even the
  declared default, has another key than the empty selection.
\<close>

theorem cache_key_canonical:
  "(wf_props p \<and> wf_props q \<and> props_selection p = props_selection q \<longrightarrow>
      createCacheKey p = createCacheKey q)
   \<and> (plain_props p \<and> plain_props q \<and> createCacheKey p = createCacheKey q \<longrightarrow>
        props_selection p = props_selection q)
   \<and> cache_lookup (snd (nva_computeStyles env st p)) (createCacheKey p) = Some (fst (nva_computeStyles env st p))
   \<and> (v \<noteq> JUndefined \<longrightarrow> createCacheKey (Some [(k, v)]) \<noteq> createCacheKey (Some []))"
proof -
  have a: "wf_props p \<and> wf_props q \<and> props_selection p = props_selection q \<longrightarrow>
      createCacheKey p = createCacheKey q"
    by (simp add: createCacheKey_canonical)
  have b: "plain_props p \<and> plain_props q \<and> createCacheKey p = createCacheKey q \<longrightarrow>
        props_selection p = props_selection q"
    using createCacheKey_inj [of p q] by blast
  have c: "v \<noteq> JUndefined \<longrightarrow> createCacheKey (Some [(k, v)]) \<noteq> createCacheKey (Some [])"
    by (simp add: createCacheKey_def cacheKey_step_def js_get_def)
  from a b c lookup_after_call [of env st p] show ?thesis by (intro conjI)
qed

theorem cache_key_canonical_witness:
  "createCacheKey (Some [(''b'', JStr ''x''), (''a'', JBool True), (''c'', JUndefined)])
     = createCacheKey (Some [(''a'', JStr ''true''), (''b'', JStr ''x'')])
   \<and> props_selection (Some [(''tone'', JStr ''loud''), (''size'', JStr ''lg'')])
     = props_selection (Some [(''size'', JStr ''lg''), (''tone'', JStr ''loud'')])
   \<and> createCacheKey (Some [(''size'', JStr ''sm'')]) \<noteq> createCacheKey (Some [])"
proof -
  let ?p = "Some [(''b'', JStr ''x''), (''a'', JBool True), (''c'', JUndefined)]"
  let ?q = "Some [(''a'', JStr ''true''), (''b'', JStr ''x'')]"
  let ?r = "Some [(''tone'', JStr ''loud''), (''size'', JStr ''lg'')]"
  let ?s = "Some [(''size'', JStr ''lg''), (''tone'', JStr ''loud'')]"
  have w: "wf_props ?p \<and> wf_props ?q"
    by (simp add: wf_props_def wf_obj_def)
  have e: "props_selection ?p = props_selection ?q"
    by (auto simp: props_selection_def selection_of_def fun_eq_iff)
  from cache_key_canonical [of ?p ?q, THEN conjunct1] w e
  have 1: "createCacheKey ?p = createCacheKey ?q" by blast
  have pl: "plain_props ?r \<and> plain_props ?s"
    by (simp add: plain_props_def wf_obj_def separator_free_def)
  have ke: "createCacheKey ?r = createCacheKey ?s" by code_simp
  from cache_key_canonical [of ?r ?s, THEN conjunct2, THEN conjunct1] pl ke
  have 2: "props_selection ?r = props_selection ?s" by blast
  from cache_key_canonical [of _ _ _ _ "JStr ''sm''" "''size''", THEN conjunct2, THEN conjunct2, THEN conjunct2]
  have 3: "createCacheKey (Some [(''size'', JStr ''sm'')]) \<noteq> createCacheKey (Some [])" by simp
  from 1 2 3 show ?thesis by simp
qed

text \<open>
  C1 as stated fails twice: \<open>{a: "x;b:y"}\<close> and \<open>{a: "x", b: "y"}\<close> differ and have
  the same key, and under the default \<open>{size: "sm"}\<close> the selections \<open>{}\<close> and
  \<open>{size: "sm"}\<close> are the same effective selection with different keys.
\<close>

theorem cache_key_collision_counterexample:
  "createCacheKey (Some [(''a'', JStr ''x;b:y'')]) = createCacheKey (Some [(''a'', JStr ''x''), (''b'', JStr ''y'')])
   \<and> props_selection (Some [(''a'', JStr ''x;b:y'')]) ''b'' = None
   \<and> props_selection (Some [(''a'', JStr ''x''), (''b'', JStr ''y'')]) ''b'' = Some ''y''
   \<and> resolveProps [(''size'', JStr ''sm'')] (Some []) = resolveProps [(''size'', JStr ''sm'')] (Some [(''size'', JStr ''sm'')])
   \<and> createCacheKey (Some []) = ''{}''
   \<and> createCacheKey (Some [(''size'', JStr ''sm'')]) = ''size:sm;''"
proof -
  have "createCacheKey (Some [(''a'', JStr ''x;b:y'')]) = createCacheKey (Some [(''a'', JStr ''x''), (''b'', JStr ''y'')])"
    by code_simp
  moreover have "createCacheKey (Some [(''size'', JStr ''sm'')]) = ''size:sm;''"
    by code_simp
  ultimately show ?thesis
    by (simp add: props_selection_def selection_of_def resolveProps_def obj_assign_def createCacheKey_def)
qed

text \<open>
  C2, as amended. Two calls whose props have the same cache key return the identical
  cached object, whatever calls come between them. In a history of calls whose props
  hold no separator characters, every call returns the value computed from its own
  effective selection, so two calls with the same effective selection return equal
  values.
\<close>

theorem resolver_stability:
  "(createCacheKey p = createCacheKey q \<longrightarrow>
      fst (nva_computeStyles env (nva_run env st (p # mid)) q) = fst (nva_computeStyles env st p))
   \<and> ((\<forall>x \<in> set (p # ps). plain_props x) \<longrightarrow>
        snd (fst (nva_computeStyles env (nva_run env fresh_partition ps) p)) =
          computeAllSlots env (resolveProps (c_defaultVariants env) p))
   \<and> ((\<forall>x \<in> set (ps @ p # mid @ [q]). plain_props x) \<and>
        selection_of (resolveProps (c_defaultVariants env) p) = selection_of (resolveProps (c_defaultVariants env) q) \<longrightarrow>
        snd (fst (nva_computeStyles env (nva_run env fresh_partition (ps @ p # mid)) q)) =
          snd (fst (nva_computeStyles env (nva_run env fresh_partition ps) p)))"
proof -
  have a: "createCacheKey p = createCacheKey q \<longrightarrow>
      fst (nva_computeStyles env (nva_run env st (p # mid)) q) = fst (nva_computeStyles env st p)"
    using same_key_same_instance [of p q env st mid] by blast
  have b: "(\<forall>x \<in> set (p # ps). plain_props x) \<longrightarrow>
        snd (fst (nva_computeStyles env (nva_run env fresh_partition ps) p)) =
          computeAllSlots env (resolveProps (c_defaultVariants env) p)"
    using plain_history_value [of ps p env] by simp
  have c: "snd (fst (nva_computeStyles env (nva_run env fresh_partition (ps @ p # mid)) q)) =
          snd (fst (nva_computeStyles env (nva_run env fresh_partition ps) p))"
    if h: "\<forall>x \<in> set (ps @ p # mid @ [q]). plain_props x"
      and s: "selection_of (resolveProps (c_defaultVariants env) p) = selection_of (resolveProps (c_defaultVariants env) q)"
  proof -
    from h have "\<forall>x \<in> set (ps @ p # mid). plain_props x" "plain_props q" "\<forall>x \<in> set ps. plain_props x" "plain_props p"
      by auto
    from plain_history_value [OF this(1,2), of env] plain_history_value [OF this(3,4), of env]
      computeAllSlots_selection [OF s, of env]
    show ?thesis by simp
  qed
  from a b c show ?thesis by blast
qed

theorem resolver_stability_witness:
  "fst (nva_computeStyles (nva_styled [] cfg_size)
        (nva_run (nva_styled [] cfg_size) fresh_partition [Some [(''size'', JStr ''lg'')], None])
        (Some [(''size'', JStr ''lg''), (''tone'', JUndefined)]))
     = (0, [(''root'', [(''padding'', 16)])])
   \<and> snd (fst (nva_computeStyles (nva_styled [] cfg_size)
        (nva_run (nva_styled [] cfg_size) fresh_partition [Some [(''size'', JStr ''lg'')], None])
        (Some [(''size'', JStr ''sm'')])))
     = [(''root'', [(''padding'', 4)])]"
proof -
  let ?env = "nva_styled [] cfg_size"
  let ?p = "Some [(''size'', JStr ''lg'')]"
  let ?q = "Some [(''size'', JStr ''lg''), (''tone'', JUndefined)]"
  have k: "createCacheKey ?p = createCacheKey ?q" by code_simp
  have f: "fst (nva_computeStyles ?env fresh_partition ?p) = (0, [(''root'', [(''padding'', 16)])])"
    unfolding cfg_size_def by code_simp
  from resolver_stability [of ?p ?q ?env fresh_partition "[None]", THEN conjunct1] k f
  have 1: "fst (nva_computeStyles ?env (nva_run ?env fresh_partition [?p, None]) ?q)
      = (0, [(''root'', [(''padding'', 16)])])"
    by simp
  have h: "\<forall>x \<in> set ([?p] @ None # [] @ [Some [(''size'', JStr ''sm'')]]). plain_props x"
    by (simp add: plain_props_def wf_obj_def separator_free_def)
  have s: "selection_of (resolveProps (c_defaultVariants ?env) None)
      = selection_of (resolveProps (c_defaultVariants ?env) (Some [(''size'', JStr ''sm'')]))"
    unfolding cfg_size_def
    by (simp add: nva_styled_def resolveProps_def obj_assign_def)
  have v: "snd (fst (nva_computeStyles ?env (nva_run ?env fresh_partition [?p]) None))
      = [(''root'', [(''padding'', 4)])]"
    unfolding cfg_size_def by code_simp
  from resolver_stability [of _ _ ?env _ "[]" "[?p]", where p = None and q = "Some [(''size'', JStr ''sm'')]",
      THEN conjunct2, THEN conjunct2] h s v
  have 2: "snd (fst (nva_computeStyles ?env (nva_run ?env fresh_partition [?p, None])
        (Some [(''size'', JStr ''sm'')]))) = [(''root'', [(''padding'', 4)])]"
    by simp
  from 1 2 show ?thesis by simp
qed

text \<open>
  C2 as stated fails: under the default \<open>{size: "sm"}\<close> the calls \<open>resolve({})\<close> and
  \<open>resolve({size: "sm"})\<close> have the same effective selection and return two objects
  (numbers 0 and 1); and after \<open>resolve({a: "x;b:y"})\<close> the calls
  \<open>resolve({a: "x", b: "y"})\<close> and \<open>resolve({a: "x"})\<close>, equal in effective selection
  under the default \<open>{b: "y"}\<close>, return different values.
\<close>

theorem resolver_instances_counterexample:
  "resolveProps (c_defaultVariants (nva_styled [] cfg_size)) (Some [])
     = resolveProps (c_defaultVariants (nva_styled [] cfg_size)) (Some [(''size'', JStr ''sm'')])
   \<and> fst (nva_computeStyles (nva_styled [] cfg_size) fresh_partition (Some []))
       = (0, [(''root'', [(''padding'', 4)])])
   \<and> fst (nva_computeStyles (nva_styled [] cfg_size)
        (nva_run (nva_styled [] cfg_size) fresh_partition [Some []]) (Some [(''size'', JStr ''sm'')]))
       = (1, [(''root'', [(''padding'', 4)])])
   \<and> resolveProps (c_defaultVariants (nva_styled [] cfg_collide)) (Some [(''a'', JStr ''x''), (''b'', JStr ''y'')])
     = resolveProps (c_defaultVariants (nva_styled [] cfg_collide)) (Some [(''a'', JStr ''x'')])
   \<and> snd (fst (nva_computeStyles (nva_styled [] cfg_collide)
        (nva_run (nva_styled [] cfg_collide) fresh_partition [Some [(''a'', JStr ''x;b:y'')]])
        (Some [(''a'', JStr ''x''), (''b'', JStr ''y'')])))
       = [(''root'', [(''padding'', 1), (''margin'', 3)])]
   \<and> snd (fst (nva_computeStyles (nva_styled [] cfg_collide)
        (nva_run (nva_styled [] cfg_collide) fresh_partition
           [Some [(''a'', JStr ''x;b:y'')], Some [(''a'', JStr ''x''), (''b'', JStr ''y'')]])
        (Some [(''a'', JStr ''x'')])))
       = [(''root'', [(''padding'', 2), (''margin'', 3)])]"
  unfolding cfg_size_def cfg_collide_def by code_simp

text \<open>
  C4. In every state of the cache \<open>resolve({})\<close>, \<open>resolve(undefined)\<close> and
  \<open>resolve({k: undefined})\<close> (and any props whose values are all \<open>undefined\<close>) are
  the same call: same result, same object, same cache afterwards. Their effective
  selection is the copy of the declared defaults, which an \<open>undefined\<close> entry never
  overrides, and after any history of calls the value returned is the one computed
  from the declared defaults alone.
\<close>

theorem default_overlay:
  "nva_computeStyles env st (Some []) = nva_computeStyles env st None
   \<and> nva_computeStyles env st (Some [(k, JUndefined)]) = nva_computeStyles env st None
   \<and> (list_all (\<lambda>(k, v). v = JUndefined) p \<longrightarrow>
        nva_computeStyles env st (Some p) = nva_computeStyles env st None)
   \<and> resolveProps dv (Some [(k, JUndefined)]) = obj_assign [] dv
   \<and> resolveProps dv (Some []) = obj_assign [] dv
   \<and> resolveProps dv None = obj_assign [] dv
   \<and> ((\<forall>q \<in> set ps. wf_props q) \<longrightarrow>
        snd (fst (nva_computeStyles env (nva_run env fresh_partition ps) None)) =
          computeAllSlots env (obj_assign [] (c_defaultVariants env)))"
proof -
  have a: "nva_computeStyles env st (Some []) = nva_computeStyles env st None"
    by (rule all_undefined_call) simp
  have b: "nva_computeStyles env st (Some [(k, JUndefined)]) = nva_computeStyles env st None"
    by (rule all_undefined_call) simp
  have c: "list_all (\<lambda>(k, v). v = JUndefined) p \<longrightarrow>
        nva_computeStyles env st (Some p) = nva_computeStyles env st None"
    by (simp add: all_undefined_call)
  have d: "resolveProps dv (Some [(k, JUndefined)]) = obj_assign [] dv"
    "resolveProps dv (Some []) = obj_assign [] dv" "resolveProps dv None = obj_assign [] dv"
    by (simp_all add: resolveProps_def)
  have e: "(\<forall>q \<in> set ps. wf_props q) \<longrightarrow>
        snd (fst (nva_computeStyles env (nva_run env fresh_partition ps) None)) =
          computeAllSlots env (obj_assign [] (c_defaultVariants env))"
    by (simp add: defaults_only_value)
  from a b c d e show ?thesis by (intro conjI)
qed

theorem default_overlay_witness:
  "snd (fst (nva_computeStyles (nva_styled [] cfg_size)
        (nva_run (nva_styled [] cfg_size) fresh_partition [Some [(''size'', JStr ''lg'')]])
        (Some [(''size'', JUndefined), (''tone'', JUndefined)])))
     = [(''root'', [(''padding'', 4)])]
   \<and> computeAllSlots (nva_styled [] cfg_size) (obj_assign [] (c_defaultVariants (nva_styled [] cfg_size)))
     = [(''root'', [(''padding'', 4)])]"
proof -
  let ?env = "nva_styled [] cfg_size"
  let ?ps = "[Some [(''size'', JStr ''lg'')]]"
  note t = default_overlay [of ?env "nva_run ?env fresh_partition ?ps" "''size''"
      "[(''size'', JUndefined), (''tone'', JUndefined)]" "[]" ?ps]
  have u: "list_all (\<lambda>(k, v). v = JUndefined) [(''size'', JUndefined), (''tone'', JUndefined)]"
    by simp
  have w: "\<forall>q \<in> set ?ps. wf_props q"
    by (simp add: wf_props_def wf_obj_def)
  have v: "computeAllSlots ?env (obj_assign [] (c_defaultVariants ?env)) = [(''root'', [(''padding'', 4)])]"
    unfolding cfg_size_def by code_simp
  from t u have "nva_computeStyles ?env (nva_run ?env fresh_partition ?ps)
        (Some [(''size'', JUndefined), (''tone'', JUndefined)])
      = nva_computeStyles ?env (nva_run ?env fresh_partition ?ps) None"
    by blast
  moreover from t w have "snd (fst (nva_computeStyles ?env (nva_run ?env fresh_partition ?ps) None)) =
          computeAllSlots ?env (obj_assign [] (c_defaultVariants ?env))"
    by blast
  ultimately show ?thesis using v by simp
qed









end
